theory Spec2Isabelle
  imports Main
begin

section \<open>The trending-news feed aggregator (app/api/trending/route.ts)\<close>

text \<open>
  The route handler \<open>GET\<close> visits the constant list \<open>FEEDS\<close> in order, asks the RSS parser
  for each feed, turns the first ten entries of every feed into articles and answers with
  the mapping from source name to article list, or with an error response as soon as one
  feed cannot be fetched or parsed.

  JavaScript strings are sequences of code units; they are modelled as \<open>string\<close>. Every
  character the two regular expressions of the handler name is an ASCII character, and
  under the \<open>i\<close> flag (without \<open>u\<close>) a non-ASCII code unit never folds to an ASCII one, so
  only the identity of ASCII characters matters.

  A property that may be missing is an \<open>option\<close>: \<open>None\<close> is \<open>undefined\<close>, \<open>Some s\<close> is the
  string \<open>s\<close>, possibly empty. The text fields of an entry and the description of a channel
  reach the handler through \<open>any\<close>, and the parser fills them with an object where the
  element has attributes or children: they are \<open>js_value\<close>s. The handler calls
  \<open>html.match\<close> on them, which throws a \<open>TypeError\<close> on a truthy value that is no string;
  the \<open>catch\<close> of the handler answers it like a failed fetch.
\<close>

subsection \<open>JavaScript operators on optional strings\<close>

definition truthy :: "string option \<Rightarrow> bool" where
  \<comment> \<open>\<open>undefined\<close> and the empty string are falsy, every other string is truthy\<close>
  "truthy v = (case v of None \<Rightarrow> False | Some s \<Rightarrow> s \<noteq> [])"

definition js_or :: "string option \<Rightarrow> string option \<Rightarrow> string option" where
  \<comment> \<open>\<open>a || b\<close>: the left operand when it is truthy, else the right operand as it is\<close>
  "js_or a b = (if truthy a then a else b)"

definition js_or_str :: "string option \<Rightarrow> string \<Rightarrow> string" where
  \<comment> \<open>\<open>a || b\<close> where the last operand \<open>b\<close> is a string that is always there\<close>
  "js_or_str a b = (case a of None \<Rightarrow> b | Some s \<Rightarrow> if s \<noteq> [] then s else b)"

definition nullish :: "string option \<Rightarrow> string \<Rightarrow> string" where
  \<comment> \<open>\<open>a ?? b\<close>: only \<open>undefined\<close> gives way to \<open>b\<close>\<close>
  "nullish a b = (case a of None \<Rightarrow> b | Some s \<Rightarrow> s)"

subsection \<open>Data\<close>

record feed_source =
  name :: string
  url :: string

definition FEEDS :: "feed_source list" where
  "FEEDS =
    [\<lparr>name = ''Google News'', url = ''https://news.google.com/rss?hl=en-US&gl=US&ceid=US:en''\<rparr>,
     \<lparr>name = ''TechCrunch'', url = ''https://techcrunch.com/feed/''\<rparr>,
     \<lparr>name = ''BBC World'', url = ''http://feeds.bbci.co.uk/news/world/rss.xml''\<rparr>,
     \<lparr>name = ''Hacker News'', url = ''https://hnrss.org/frontpage''\<rparr>,
     \<lparr>name = ''The Verge'', url = ''https://www.theverge.com/rss/index.xml''\<rparr>,
     \<lparr>name = ''Wired'', url = ''https://www.wired.com/feed/rss''\<rparr>,
     \<lparr>name = ''Engadget'', url = ''https://www.engadget.com/rss.xml''\<rparr>,
     \<lparr>name = ''Kaundal VIP'', url = ''https://kaundal.vip/feed/''\<rparr>]"

datatype categories_value =
    CatUndefined
  | CatString string
  | CatArray "string list"
  | CatOther  \<comment> \<open>any value that is neither an array nor a string, such as an object\<close>

text \<open>
  A value of a text field as the parser hands it over: \<open>JUndefined\<close> is a missing property
  (\<open>null\<close> behaves like it in every place the handler reads these fields), \<open>JString\<close> a
  string, \<open>JObject\<close> any truthy value that is not a string (an object or an array).
\<close>

datatype js_value = JUndefined | JString string | JObject

text \<open>
  An entry as the parser hands it over. \<open>js_contentEncoded\<close> is the property
  \<open>contentEncoded\<close> (filled by the custom field mapping), \<open>js_content_encoded\<close> is the
  property \<open>'content:encoded'\<close>; the handler reads both.
\<close>

record js_item =
  js_title :: "string option"
  js_link :: "string option"
  js_pubDate :: "string option"
  js_creator :: "string option"
  js_contentEncoded :: js_value
  js_contentSnippet :: js_value
  js_content_encoded :: js_value
  js_description :: js_value
  js_categories :: categories_value

text \<open>
  The same entry with its text fields read as strings, as the declared types
  (\<open>desc: string\<close>, \<open>html?: string\<close>) have it. The callback returns an article only when every
  text field it reads is a string or missing.
\<close>

record raw_item =
  item_title :: "string option"
  item_link :: "string option"
  item_pubDate :: "string option"
  item_creator :: "string option"
  item_contentEncoded :: "string option"
  item_contentSnippet :: "string option"
  item_content_encoded :: "string option"
  item_description :: "string option"
  item_categories :: categories_value

record feed_image =
  image_url :: "string option"

text \<open>The feed as the parser hands it over, and the feed with its text read as strings.\<close>

record js_feed =
  js_feed_title :: "string option"
  js_feed_description :: js_value
  js_feed_image :: "feed_image option"
  js_items :: "js_item list"

record parsed_feed =
  feed_title :: "string option"
  feed_description :: "string option"
  feed_image :: "feed_image option"
  feed_items :: "raw_item list"

text \<open>The \<open>FeedItem\<close> the handler builds; \<open>image'\<close> is its property \<open>image\<close>.\<close>

record article =
  title :: string
  link :: string
  pubDate :: string
  channel :: string
  contentSnippet :: string
  categories :: "string list"
  image' :: "string option"

subsection \<open>extractImage\<close>

text \<open>
  \<open>html.match(/<img [^>]*src=["']([^"']+)["']/i)\<close>, written out as the backtracking
  matcher runs it: the leftmost start position wins; at a start position \<open>[^>]*\<close> is greedy,
  so the longest gap that lets the rest match wins; \<open>[^"']+\<close> can only take the whole run of
  characters up to the next quote, because the closing quote has to follow it.
\<close>

definition upcase :: "char \<Rightarrow> char" where
  \<comment> \<open>the canonical form the \<open>i\<close> flag compares: a lower-case ASCII letter as its capital\<close>
  "upcase c =
     (case map_of (zip ''abcdefghijklmnopqrstuvwxyz'' ''ABCDEFGHIJKLMNOPQRSTUVWXYZ'') c of
        Some u \<Rightarrow> u
      | None \<Rightarrow> c)"

definition is_quote :: "char \<Rightarrow> bool" where
  "is_quote c = (c = CHR 0x22 \<or> c = CHR 0x27)"

fun ci_prefix :: "string \<Rightarrow> string \<Rightarrow> string option" where
  \<comment> \<open>a literal of the pattern matched at the head, ignoring case: the rest of the input\<close>
  "ci_prefix [] s = Some s"
| "ci_prefix (p # ps) [] = None"
| "ci_prefix (p # ps) (c # cs) = (if upcase c = upcase p then ci_prefix ps cs else None)"

definition src_attr :: "string \<Rightarrow> string option" where
  \<comment> \<open>\<open>src=["']([^"']+)["']\<close> at the head of the input: the captured group\<close>
  "src_attr s =
     (case ci_prefix ''src='' s of
        None \<Rightarrow> None
      | Some r \<Rightarrow>
          (case r of
             [] \<Rightarrow> None
           | q # r' \<Rightarrow>
               if \<not> is_quote q then None
               else let u = takeWhile (\<lambda>c. \<not> is_quote c) r';
                        rest = dropWhile (\<lambda>c. \<not> is_quote c) r'
                    in if u = [] \<or> rest = [] then None else Some u))"

fun attr_scan :: "string \<Rightarrow> string option" where
  \<comment> \<open>\<open>[^>]*\<close> followed by the \<open>src\<close> attribute: the longer gap is tried first\<close>
  "attr_scan [] = src_attr []"
| "attr_scan (c # cs) =
     (if c = CHR ''>'' then src_attr (c # cs)
      else (case attr_scan cs of Some u \<Rightarrow> Some u | None \<Rightarrow> src_attr (c # cs)))"

definition img_at :: "string \<Rightarrow> string option" where
  \<comment> \<open>the whole pattern at the head of the input\<close>
  "img_at s = (case ci_prefix ''<img '' s of None \<Rightarrow> None | Some r \<Rightarrow> attr_scan r)"

fun first_match :: "string \<Rightarrow> string option" where
  \<comment> \<open>\<open>match\<close> without the \<open>g\<close> flag: the start positions from left to right\<close>
  "first_match [] = img_at []"
| "first_match (c # cs) = (case img_at (c # cs) of Some u \<Rightarrow> Some u | None \<Rightarrow> first_match cs)"

definition extractImage :: "string option \<Rightarrow> string option" where
  "extractImage html =
     (case html of
        None \<Rightarrow> None
      | Some s \<Rightarrow> if s = [] then None else first_match s)"

subsection \<open>Stripping tags for the snippet\<close>

text \<open>
  \<open>desc.replace(/<\/?[^>]+(>|$)/g, "")\<close>: at each position, from left to right, a match is
  dropped and the scan goes on behind it; where nothing matches the character is kept.
  \<open>[^>]+\<close> takes the whole run of characters other than \<open>>\<close>, after which either \<open>>\<close> or the
  end of the input follows, so the group \<open>(>|$)\<close> always matches there.
\<close>

definition tag_tail :: "string \<Rightarrow> string option" where
  \<comment> \<open>\<open>[^>]+(>|$)\<close> at the head of the input: what is left behind the match\<close>
  "tag_tail s =
     (let body = takeWhile (\<lambda>c. c \<noteq> CHR ''>'') s;
          rest = dropWhile (\<lambda>c. c \<noteq> CHR ''>'') s
      in if body = [] then None else Some (case rest of [] \<Rightarrow> [] | _ # r \<Rightarrow> r))"

definition tag_at :: "string \<Rightarrow> string option" where
  \<comment> \<open>\<open><\/?[^>]+(>|$)\<close> at the head: the optional slash is taken first, given back on failure\<close>
  "tag_at s =
     (case s of
        [] \<Rightarrow> None
      | c # cs \<Rightarrow>
          if c \<noteq> CHR ''<'' then None
          else (case cs of
                  [] \<Rightarrow> tag_tail cs
                | d # ds \<Rightarrow>
                    if d = CHR ''/''
                    then (case tag_tail ds of Some r \<Rightarrow> Some r | None \<Rightarrow> tag_tail cs)
                    else tag_tail cs))"

function strip_tags :: "string \<Rightarrow> string" where
  "strip_tags [] = []"
| "strip_tags (c # cs) =
     (case tag_at (c # cs) of Some rest \<Rightarrow> strip_tags rest | None \<Rightarrow> c # strip_tags cs)"
  by pat_completeness auto
termination
proof (relation "measure length")
  fix c :: char and cs rest :: string
  assume m: "tag_at (c # cs) = Some rest"
  have tail: "length r \<le> length t" if "tag_tail t = Some r" for t r
  proof -
    have "length (dropWhile (\<lambda>c. c \<noteq> CHR ''>'') t) \<le> length t"
      by (rule length_dropWhile_le)
    with that show ?thesis
      by (auto simp: tag_tail_def Let_def split: if_splits list.splits)
  qed
  from m have "length rest < length (c # cs)"
    by (auto simp: tag_at_def split: list.splits if_splits option.splits dest!: tail)
  then show "(rest, c # cs) \<in> measure length" by simp
qed simp_all

subsection \<open>Building one article\<close>

definition channelImage :: "parsed_feed \<Rightarrow> string option" where
  "channelImage parsed =
     js_or (case feed_image parsed of None \<Rightarrow> None | Some i \<Rightarrow> image_url i)
           (extractImage (feed_description parsed))"

definition resolve_desc :: "raw_item \<Rightarrow> string" where
  \<comment> \<open>the constant \<open>desc\<close> of the handler\<close>
  "resolve_desc item =
     js_or_str
       (js_or (js_or (js_or (item_contentEncoded item) (item_contentSnippet item))
                     (item_content_encoded item))
              (item_description item))
       []"

definition normalize_categories :: "categories_value \<Rightarrow> string list" where
  \<comment> \<open>the constant \<open>categories\<close> of the handler\<close>
  "normalize_categories v =
     (case v of
        CatArray xs \<Rightarrow> xs
      | CatString s \<Rightarrow> [s]
      | _ \<Rightarrow> [])"

text \<open>
  The object the callback returns for an entry whose text fields are strings or missing.
\<close>

definition build_article :: "feed_source \<Rightarrow> parsed_feed \<Rightarrow> raw_item \<Rightarrow> article" where
  "build_article feed parsed item =
     (let desc = resolve_desc item;
          cats = normalize_categories (item_categories item);
          img = js_or (js_or (extractImage (Some desc)) (extractImage (item_contentSnippet item)))
                      (channelImage parsed)
      in \<lparr>title = nullish (item_title item) [],
          link = nullish (item_link item) [],
          pubDate = nullish (item_pubDate item) [],
          channel = js_or_str (js_or (item_creator item) (feed_title parsed)) (name feed),
          contentSnippet = take 225 (strip_tags desc) @ ''...'',
          categories = cats,
          image' = img\<rparr>)"

subsection \<open>Values that are not strings\<close>

definition js_truthy :: "js_value \<Rightarrow> bool" where
  "js_truthy v = (case v of JUndefined \<Rightarrow> False | JString s \<Rightarrow> s \<noteq> [] | JObject \<Rightarrow> True)"

definition js_or_value :: "js_value \<Rightarrow> js_value \<Rightarrow> js_value" where
  \<comment> \<open>\<open>a || b\<close> on values of any type\<close>
  "js_or_value a b = (if js_truthy a then a else b)"

definition as_text :: "js_value \<Rightarrow> string option" where
  \<comment> \<open>a value read as a string; where an object is read the handler has thrown\<close>
  "as_text v = (case v of JString s \<Rightarrow> Some s | _ \<Rightarrow> None)"

definition text_item :: "js_item \<Rightarrow> raw_item" where
  "text_item item =
     \<lparr>item_title = js_title item, item_link = js_link item, item_pubDate = js_pubDate item,
      item_creator = js_creator item,
      item_contentEncoded = as_text (js_contentEncoded item),
      item_contentSnippet = as_text (js_contentSnippet item),
      item_content_encoded = as_text (js_content_encoded item),
      item_description = as_text (js_description item),
      item_categories = js_categories item\<rparr>"

definition text_feed :: "js_feed \<Rightarrow> parsed_feed" where
  "text_feed parsed =
     \<lparr>feed_title = js_feed_title parsed,
      feed_description = as_text (js_feed_description parsed),
      feed_image = js_feed_image parsed,
      feed_items = map text_item (js_items parsed)\<rparr>"

subsection \<open>The handler\<close>

text \<open>
  The results object: its keys are kept in insertion order, and assigning to a key that is
  already there replaces the value where it stands. (JavaScript lists keys that are array
  indices first; no name in \<open>FEEDS\<close> is one.)
\<close>

type_synonym 'v js_object = "(string \<times> 'v) list"

fun obj_set :: "'v js_object \<Rightarrow> string \<Rightarrow> 'v \<Rightarrow> 'v js_object" where
  "obj_set [] k v = [(k, v)]"
| "obj_set ((k', v') # kvs) k v =
     (if k' = k then (k, v) # kvs else (k', v') # obj_set kvs k v)"

datatype js_error = JsError (message: string)

datatype json_body =
    FeedsBody "article list js_object"   \<comment> \<open>\<open>{ feeds: results }\<close>\<close>
  | ErrorBody string                     \<comment> \<open>\<open>{ error: e.message }\<close>\<close>

record response =
  status :: nat
  body :: json_body

text \<open>
  A call of \<open>extractImage\<close> with a value of any type: a falsy value returns at \<open>!html\<close>, a
  string is matched, and on any other value \<open>html.match\<close> is not a function.
\<close>

definition call_extractImage :: "js_value \<Rightarrow> js_error + string option" where
  "call_extractImage v =
     (case v of
        JUndefined \<Rightarrow> Inr (extractImage None)
      | JString s \<Rightarrow> Inr (extractImage (Some s))
      | JObject \<Rightarrow> Inl (JsError ''html.match is not a function''))"

definition channel_step :: "js_feed \<Rightarrow> js_error + string option" where
  \<comment> \<open>the constant \<open>channelImage\<close>: the right operand is evaluated only when the URL is falsy\<close>
  "channel_step parsed =
     (let u = (case js_feed_image parsed of None \<Rightarrow> None | Some i \<Rightarrow> image_url i)
      in if truthy u then Inr u else call_extractImage (js_feed_description parsed))"

definition item_desc :: "js_item \<Rightarrow> js_value" where
  \<comment> \<open>the value of the constant \<open>desc\<close>, whatever its type\<close>
  "item_desc item =
     js_or_value
       (js_or_value
          (js_or_value (js_or_value (js_contentEncoded item) (js_contentSnippet item))
                       (js_content_encoded item))
          (js_description item))
       (JString [])"

text \<open>
  The callback of \<open>map\<close>. The two calls of \<open>extractImage\<close> run in the order of the source,
  the second only when the first found nothing. When both have returned, \<open>desc\<close> is a string
  and so is every text field that was read, and \<open>build_article\<close> is the object returned.
\<close>

definition map_callback :: "feed_source \<Rightarrow> js_feed \<Rightarrow> js_item \<Rightarrow> js_error + article" where
  "map_callback feed parsed item =
     (case call_extractImage (item_desc item) of
        Inl e \<Rightarrow> Inl e
      | Inr a \<Rightarrow>
          (case (if truthy a then Inr a else call_extractImage (js_contentSnippet item)) of
             Inl e \<Rightarrow> Inl e
           | Inr b \<Rightarrow> Inr (build_article feed (text_feed parsed) (text_item item))))"

fun map_throwing :: "('a \<Rightarrow> js_error + 'b) \<Rightarrow> 'a list \<Rightarrow> js_error + 'b list" where
  \<comment> \<open>\<open>Array.prototype.map\<close> with a callback that may throw: the first throw ends it\<close>
  "map_throwing f [] = Inr []"
| "map_throwing f (x # xs) =
     (case f x of
        Inl e \<Rightarrow> Inl e
      | Inr y \<Rightarrow> (case map_throwing f xs of Inl e \<Rightarrow> Inl e | Inr ys \<Rightarrow> Inr (y # ys)))"

text \<open>
  \<open>parser.parseURL\<close> is the outside world: it either throws (\<open>Inl\<close>) or returns the parsed
  feed. \<open>process_source\<close> is the body of the loop up to the assignment to \<open>results\<close>; the loop
  over the sources stops at the first throw, whichever statement throws.
\<close>

definition process_source ::
  "(string \<Rightarrow> js_error + js_feed) \<Rightarrow> feed_source \<Rightarrow> js_error + article list" where
  "process_source parseURL feed =
     (case parseURL (url feed) of
        Inl e \<Rightarrow> Inl e
      | Inr parsed \<Rightarrow>
          (case channel_step parsed of
             Inl e \<Rightarrow> Inl e
           | Inr c \<Rightarrow> map_throwing (map_callback feed parsed) (take 10 (js_items parsed))))"

fun aggregate ::
  "(string \<Rightarrow> js_error + js_feed) \<Rightarrow> feed_source list \<Rightarrow> article list js_object
     \<Rightarrow> js_error + article list js_object" where
  "aggregate parseURL [] results = Inr results"
| "aggregate parseURL (feed # feeds) results =
     (case process_source parseURL feed of
        Inl e \<Rightarrow> Inl e
      | Inr articles \<Rightarrow> aggregate parseURL feeds (obj_set results (name feed) articles))"

definition GET :: "(string \<Rightarrow> js_error + js_feed) \<Rightarrow> response" where
  "GET parseURL =
     (case aggregate parseURL FEEDS [] of
        Inr results \<Rightarrow> \<lparr>status = 200, body = FeedsBody results\<rparr>
      | Inl e \<Rightarrow> \<lparr>status = 500, body = ErrorBody (message e)\<rparr>)"

subsection \<open>Notions the properties are stated with\<close>

text \<open>
  A tag marker is a \<open><\<close>, at least one character other than \<open>>\<close>, and a \<open>>\<close>. \<open>has_tag\<close>
  finds one anywhere in a string; \<open>lt_closed\<close> says that a \<open><\<close> is only ever followed by
  \<open>>\<close> or by the end of the string (the pair \<open><>\<close> has no tag name and is no tag).
\<close>

definition tag_closed :: "string \<Rightarrow> bool" where
  "tag_closed s = (takeWhile (\<lambda>c. c \<noteq> CHR ''>'') s \<noteq> [] \<and> dropWhile (\<lambda>c. c \<noteq> CHR ''>'') s \<noteq> [])"

fun has_tag :: "string \<Rightarrow> bool" where
  "has_tag [] = False"
| "has_tag (c # cs) = ((c = CHR ''<'' \<and> tag_closed cs) \<or> has_tag cs)"

fun lt_closed :: "string \<Rightarrow> bool" where
  "lt_closed [] = True"
| "lt_closed [c] = True"
| "lt_closed (c # d # cs) = ((c \<noteq> CHR ''<'' \<or> d = CHR ''>'') \<and> lt_closed (d # cs))"

text \<open>
  The pattern of \<open>extractImage\<close> as the specification words it: an occurrence in \<open>s\<close>, behind
  the prefix \<open>pre\<close>, is the literal \<open><img\<close> and a space in any case, a gap without \<open>>\<close>, the
  literal \<open>src=\<close> in any case, a double or single quote, the URL \<open>u\<close> (at least one character,
  no quote in it) and a quote again.
\<close>

definition ci_equal :: "string \<Rightarrow> string \<Rightarrow> bool" where
  "ci_equal lit t \<longleftrightarrow> map upcase t = map upcase lit"

definition img_occurrence :: "string \<Rightarrow> string \<Rightarrow> string \<Rightarrow> string \<Rightarrow> bool" where
  "img_occurrence s pre gap u \<longleftrightarrow>
     (\<exists>tag attr q1 q2 post.
        s = pre @ tag @ gap @ attr @ [q1] @ u @ [q2] @ post \<and>
        ci_equal ''<img '' tag \<and> CHR ''>'' \<notin> set gap \<and> ci_equal ''src='' attr \<and>
        is_quote q1 \<and> is_quote q2 \<and> u \<noteq> [] \<and> (\<forall>c\<in>set u. \<not> is_quote c))"

text \<open>The list the handler stores under a source's name.\<close>

definition articles_of :: "(string \<Rightarrow> js_error + js_feed) \<Rightarrow> feed_source \<Rightarrow> article list" where
  "articles_of parseURL feed =
     (case process_source parseURL feed of Inl e \<Rightarrow> [] | Inr articles \<Rightarrow> articles)"

text \<open>A feed in which every text field the handler may read is a string or missing.\<close>

definition plain_item :: "js_item \<Rightarrow> bool" where
  "plain_item item \<longleftrightarrow>
     js_contentEncoded item \<noteq> JObject \<and> js_contentSnippet item \<noteq> JObject \<and>
     js_content_encoded item \<noteq> JObject \<and> js_description item \<noteq> JObject"

definition plain_feed :: "js_feed \<Rightarrow> bool" where
  "plain_feed parsed \<longleftrightarrow>
     js_feed_description parsed \<noteq> JObject \<and> list_all plain_item (js_items parsed)"

subsection \<open>Concrete inputs\<close>

text \<open>An entry and a feed with no property at all, and an \<open>img\<close> tag with a given source.\<close>

abbreviation empty_item :: raw_item where
  "empty_item \<equiv>
     \<lparr>item_title = None, item_link = None, item_pubDate = None, item_creator = None,
      item_contentEncoded = None, item_contentSnippet = None, item_content_encoded = None,
      item_description = None, item_categories = CatUndefined\<rparr>"

abbreviation empty_feed :: parsed_feed where
  "empty_feed \<equiv>
     \<lparr>feed_title = None, feed_description = None, feed_image = None, feed_items = []\<rparr>"

abbreviation img_tag :: "string \<Rightarrow> string" where
  "img_tag u \<equiv> ''<img src='' @ [CHR 0x22] @ u @ [CHR 0x22] @ ''>''"

abbreviation js_empty_item :: js_item where
  "js_empty_item \<equiv>
     \<lparr>js_title = None, js_link = None, js_pubDate = None, js_creator = None,
      js_contentEncoded = JUndefined, js_contentSnippet = JUndefined,
      js_content_encoded = JUndefined, js_description = JUndefined,
      js_categories = CatUndefined\<rparr>"

abbreviation js_empty_feed :: js_feed where
  "js_empty_feed \<equiv>
     \<lparr>js_feed_title = None, js_feed_description = JUndefined, js_feed_image = None,
      js_items = []\<rparr>"

text \<open>
  A parser for which every source answers (twelve entries at TechCrunch, three elsewhere),
  one for which the third source fails, and one for which every source answers but the
  first entry of the second source has an object as its full content
  (\<open><content:encoded type="html"/>\<close>).
\<close>

definition parse_ok :: "string \<Rightarrow> js_error + js_feed" where
  "parse_ok u =
     (if u = ''https://techcrunch.com/feed/''
      then Inr (js_empty_feed\<lparr>js_items := replicate 12 js_empty_item\<rparr>)
      else Inr (js_empty_feed\<lparr>js_items := replicate 3 js_empty_item\<rparr>))"

definition parse_fail :: "string \<Rightarrow> js_error + js_feed" where
  "parse_fail u =
     (if u = ''http://feeds.bbci.co.uk/news/world/rss.xml''
      then Inl (JsError ''Status code 404'')
      else Inr js_empty_feed)"

definition parse_object :: "string \<Rightarrow> js_error + js_feed" where
  "parse_object u =
     (if u = ''https://techcrunch.com/feed/''
      then Inr (js_empty_feed\<lparr>js_items := [js_empty_item\<lparr>js_contentEncoded := JObject\<rparr>]\<rparr>)
      else Inr js_empty_feed)"

section \<open>What extractImage can return\<close>

lemma src_attr_nonempty: "src_attr s = Some u \<Longrightarrow> u \<noteq> []"
  by (auto simp: src_attr_def Let_def split: option.splits list.splits if_splits)

lemma attr_scan_nonempty: "attr_scan s = Some u \<Longrightarrow> u \<noteq> []"
proof (induction s)
  case Nil
  then show ?case by (simp add: src_attr_nonempty)
next
  case (Cons c cs)
  then show ?case
    by (auto split: if_splits option.splits dest: src_attr_nonempty)
qed

lemma img_at_nonempty: "img_at s = Some u \<Longrightarrow> u \<noteq> []"
  by (auto simp: img_at_def split: option.splits dest: attr_scan_nonempty)

lemma first_match_nonempty: "first_match s = Some u \<Longrightarrow> u \<noteq> []"
proof (induction s)
  case Nil
  then show ?case by (simp add: img_at_nonempty)
next
  case (Cons c cs)
  then show ?case
    by (auto split: option.splits dest: img_at_nonempty)
qed

lemma extractImage_nonempty: "extractImage html \<noteq> Some []"
proof
  assume "extractImage html = Some []"
  then obtain s where "first_match s = Some []"
    by (auto simp: extractImage_def split: option.splits if_splits)
  then show False
    using first_match_nonempty by blast
qed

lemma truthy_extractImage: "truthy (extractImage html) \<longleftrightarrow> extractImage html \<noteq> None"
  using extractImage_nonempty [of html]
  by (cases "extractImage html") (auto simp: truthy_def)

lemma js_or_extractImage:
  "js_or (extractImage html) b = (case extractImage html of Some a \<Rightarrow> Some a | None \<Rightarrow> b)"
  using truthy_extractImage [of html]
  by (auto simp: js_or_def split: option.splits)

lemma js_or_not_empty: "b \<noteq> Some [] \<Longrightarrow> js_or a b \<noteq> Some []"
  by (auto simp: js_or_def truthy_def split: option.splits)

lemma channelImage_not_empty: "channelImage parsed \<noteq> Some []"
  unfolding channelImage_def
  by (rule js_or_not_empty) (rule extractImage_nonempty)

section \<open>Category normalisation\<close>

text \<open>
  C6: a list of categories is passed on unchanged, a single string becomes a one-element
  list, and a missing value or a value of any other type becomes the empty list.
\<close>

theorem categories_normalized:
  "categories (build_article feed parsed item) =
     (case item_categories item of
        CatArray xs \<Rightarrow> xs
      | CatString s \<Rightarrow> [s]
      | CatUndefined \<Rightarrow> []
      | CatOther \<Rightarrow> [])"
  by (simp add: build_article_def Let_def normalize_categories_def split: categories_value.splits)

section \<open>The image of an article\<close>

text \<open>
  C4: the image of an article is the URL extracted from the resolved description when
  there is one, else the URL extracted from the entry's summary when there is one, else
  the channel image; when none of the three is there the article has no image.
\<close>

theorem image_fallback_order:
  "image' (build_article feed parsed item) =
     (case extractImage (Some (resolve_desc item)) of
        Some a \<Rightarrow> Some a
      | None \<Rightarrow>
          (case extractImage (item_contentSnippet item) of
             Some b \<Rightarrow> Some b
           | None \<Rightarrow> channelImage parsed))"
proof (cases "extractImage (Some (resolve_desc item))")
  case None
  then show ?thesis
    by (simp add: build_article_def Let_def js_or_extractImage)
next
  case (Some a)
  with truthy_extractImage [of "Some (resolve_desc item)"]
  have "truthy (Some a)" by simp
  with Some show ?thesis
    by (simp add: build_article_def Let_def js_or_def)
qed

theorem image_fallback_order_witness:
  "image' (build_article \<lparr>name = ''Wired'', url = ''https://www.wired.com/feed/rss''\<rparr>
      (empty_feed\<lparr>feed_image := Some \<lparr>image_url = Some ''C''\<rparr>\<rparr>)
      (empty_item\<lparr>item_contentEncoded := Some (''<p>x</p>'' @ img_tag ''A''),
                  item_contentSnippet := Some (img_tag ''B'')\<rparr>)) = Some ''A'' \<and>
   image' (build_article \<lparr>name = ''Wired'', url = ''https://www.wired.com/feed/rss''\<rparr>
      (empty_feed\<lparr>feed_image := Some \<lparr>image_url = Some ''C''\<rparr>\<rparr>)
      (empty_item\<lparr>item_contentEncoded := Some ''<p>x</p>'',
                  item_contentSnippet := Some (img_tag ''B'')\<rparr>)) = Some ''B'' \<and>
   image' (build_article \<lparr>name = ''Wired'', url = ''https://www.wired.com/feed/rss''\<rparr>
      (empty_feed\<lparr>feed_image := Some \<lparr>image_url = Some ''C''\<rparr>\<rparr>)
      (empty_item\<lparr>item_contentEncoded := Some ''<p>x</p>'',
                  item_contentSnippet := Some ''x''\<rparr>)) = Some ''C'' \<and>
   image' (build_article \<lparr>name = ''Wired'', url = ''https://www.wired.com/feed/rss''\<rparr>
      empty_feed
      (empty_item\<lparr>item_contentEncoded := Some ''<p>x</p>'',
                  item_contentSnippet := Some ''x''\<rparr>)) = None"
  using
    image_fallback_order [of "\<lparr>name = ''Wired'', url = ''https://www.wired.com/feed/rss''\<rparr>"
      "empty_feed\<lparr>feed_image := Some \<lparr>image_url = Some ''C''\<rparr>\<rparr>"
      "empty_item\<lparr>item_contentEncoded := Some (''<p>x</p>'' @ img_tag ''A''),
                  item_contentSnippet := Some (img_tag ''B'')\<rparr>"]
    image_fallback_order [of "\<lparr>name = ''Wired'', url = ''https://www.wired.com/feed/rss''\<rparr>"
      "empty_feed\<lparr>feed_image := Some \<lparr>image_url = Some ''C''\<rparr>\<rparr>"
      "empty_item\<lparr>item_contentEncoded := Some ''<p>x</p>'',
                  item_contentSnippet := Some (img_tag ''B'')\<rparr>"]
    image_fallback_order [of "\<lparr>name = ''Wired'', url = ''https://www.wired.com/feed/rss''\<rparr>"
      "empty_feed\<lparr>feed_image := Some \<lparr>image_url = Some ''C''\<rparr>\<rparr>"
      "empty_item\<lparr>item_contentEncoded := Some ''<p>x</p>'',
                  item_contentSnippet := Some ''x''\<rparr>"]
    image_fallback_order [of "\<lparr>name = ''Wired'', url = ''https://www.wired.com/feed/rss''\<rparr>"
      empty_feed
      "empty_item\<lparr>item_contentEncoded := Some ''<p>x</p>'',
                  item_contentSnippet := Some ''x''\<rparr>"]
  by (simp add: resolve_desc_def js_or_def js_or_str_def truthy_def channelImage_def
      extractImage_def img_at_def src_attr_def upcase_def is_quote_def)

text \<open>
  C10: the image of an article is never the empty string: an extraction captures at least
  one character, and an empty channel image URL gives way to the extraction from the
  channel description.
\<close>

theorem image_never_empty: "image' (build_article feed parsed item) \<noteq> Some []"
proof -
  have "js_or (js_or (extractImage (Some (resolve_desc item)))
                 (extractImage (item_contentSnippet item)))
          (channelImage parsed) \<noteq> Some []"
    by (rule js_or_not_empty) (rule channelImage_not_empty)
  then show ?thesis
    by (simp add: build_article_def Let_def)
qed

section \<open>The channel of an article\<close>

text \<open>
  C7, as the handler computes it: the channel is the entry's creator when that is present
  and not the empty string; otherwise the feed's title when that is present and not the
  empty string; otherwise the configured source name.
\<close>

theorem channel_fallback_chain:
  "(\<forall>c. item_creator item = Some c \<and> c \<noteq> [] \<longrightarrow>
        channel (build_article feed parsed item) = c) \<and>
   (\<forall>t. item_creator item \<in> {None, Some []} \<and> feed_title parsed = Some t \<and> t \<noteq> [] \<longrightarrow>
        channel (build_article feed parsed item) = t) \<and>
   (item_creator item \<in> {None, Some []} \<and> feed_title parsed \<in> {None, Some []} \<longrightarrow>
        channel (build_article feed parsed item) = name feed)"
  by (auto simp: build_article_def Let_def js_or_def js_or_str_def truthy_def)

theorem channel_fallback_chain_witness:
  "channel (build_article \<lparr>name = ''Wired'', url = ''https://www.wired.com/feed/rss''\<rparr>
      (empty_feed\<lparr>feed_title := Some ''WIRED''\<rparr>)
      (empty_item\<lparr>item_creator := Some ''Ada''\<rparr>)) = ''Ada'' \<and>
   channel (build_article \<lparr>name = ''Wired'', url = ''https://www.wired.com/feed/rss''\<rparr>
      (empty_feed\<lparr>feed_title := Some ''WIRED''\<rparr>) empty_item) = ''WIRED'' \<and>
   channel (build_article \<lparr>name = ''Wired'', url = ''https://www.wired.com/feed/rss''\<rparr>
      empty_feed empty_item) = ''Wired''"
  using
    channel_fallback_chain [of "empty_item\<lparr>item_creator := Some ''Ada''\<rparr>"
      "\<lparr>name = ''Wired'', url = ''https://www.wired.com/feed/rss''\<rparr>"
      "empty_feed\<lparr>feed_title := Some ''WIRED''\<rparr>"]
    channel_fallback_chain [of empty_item
      "\<lparr>name = ''Wired'', url = ''https://www.wired.com/feed/rss''\<rparr>"
      "empty_feed\<lparr>feed_title := Some ''WIRED''\<rparr>"]
    channel_fallback_chain [of empty_item
      "\<lparr>name = ''Wired'', url = ''https://www.wired.com/feed/rss''\<rparr>" empty_feed]
  by simp

text \<open>
  A creator that is present but empty (an empty \<open>dc:creator\<close> element) does not become the
  channel: the feed's title does.
\<close>

theorem channel_empty_creator_counterexample:
  "item_creator (empty_item\<lparr>item_creator := Some []\<rparr>) = Some [] \<and>
   channel (build_article \<lparr>name = ''Wired'', url = ''https://www.wired.com/feed/rss''\<rparr>
      (empty_feed\<lparr>feed_title := Some ''WIRED''\<rparr>)
      (empty_item\<lparr>item_creator := Some []\<rparr>)) = ''WIRED''"
  by (simp add: build_article_def Let_def js_or_def js_or_str_def truthy_def)

section \<open>The resolved description\<close>

text \<open>
  C9, as the handler computes it: the description is the first of the properties
  \<open>contentEncoded\<close>, \<open>contentSnippet\<close>, \<open>'content:encoded'\<close> and \<open>description\<close>, in this
  order, that is present and not the empty string, and the empty string when there is
  none; the snippet is cut from it.
\<close>

theorem desc_priority_chain:
  "resolve_desc item =
     (case find truthy [item_contentEncoded item, item_contentSnippet item,
                        item_content_encoded item, item_description item] of
        Some (Some s) \<Rightarrow> s
      | _ \<Rightarrow> []) \<and>
   contentSnippet (build_article feed parsed item) =
     take 225 (strip_tags (resolve_desc item)) @ ''...''"
  by (auto simp: build_article_def Let_def resolve_desc_def js_or_def js_or_str_def truthy_def
      split: option.splits)

text \<open>
  A full-content field that is present but empty (an empty \<open>content:encoded\<close> element fills
  both properties with the empty string) is passed over for the summary.
\<close>

theorem desc_empty_content_counterexample:
  "item_contentEncoded (empty_item\<lparr>item_contentEncoded := Some [], item_content_encoded := Some [],
       item_contentSnippet := Some ''summary''\<rparr>) = Some [] \<and>
   resolve_desc (empty_item\<lparr>item_contentEncoded := Some [], item_content_encoded := Some [],
       item_contentSnippet := Some ''summary''\<rparr>) = ''summary''"
  by (simp add: resolve_desc_def js_or_def js_or_str_def truthy_def)

section \<open>The snippet of an article\<close>

lemma has_tag_append: "has_tag s \<Longrightarrow> has_tag (pre @ s)"
  by (induction pre) auto

lemma has_tag_intro:
  assumes "s = pre @ [CHR ''<''] @ tag @ [CHR ''>''] @ post" and "tag \<noteq> []" and "CHR ''>'' \<notin> set tag"
  shows "has_tag s"
proof -
  have "takeWhile (\<lambda>c. c \<noteq> CHR ''>'') (tag @ CHR ''>'' # post) = tag"
    using assms(3) by (auto simp: takeWhile_tail)
  moreover have "dropWhile (\<lambda>c. c \<noteq> CHR ''>'') (tag @ CHR ''>'' # post) = CHR ''>'' # post"
    using assms(3) by (auto simp: dropWhile_append3)
  ultimately have "tag_closed (tag @ CHR ''>'' # post)"
    using assms(2) by (simp add: tag_closed_def)
  then have "has_tag (CHR ''<'' # tag @ CHR ''>'' # post)" by simp
  then show ?thesis
    using assms(1) has_tag_append [of "CHR ''<'' # tag @ CHR ''>'' # post" pre] by simp
qed

lemma tag_at_None_lt: "tag_at (CHR ''<'' # cs) = None \<Longrightarrow> cs = [] \<or> hd cs = CHR ''>''"
  by (auto simp: tag_at_def tag_tail_def Let_def split: list.splits if_splits option.splits)

lemma tag_at_not_lt: "c \<noteq> CHR ''<'' \<Longrightarrow> tag_at (c # cs) = None"
  by (simp add: tag_at_def)

lemma lt_closed_Cons: "lt_closed t \<Longrightarrow> c \<noteq> CHR ''<'' \<or> t = [] \<or> hd t = CHR ''>'' \<Longrightarrow> lt_closed (c # t)"
  by (cases t) auto

lemma strip_tags_lt_closed: "lt_closed (strip_tags s)"
proof (induction s rule: strip_tags.induct)
  case 1
  show ?case by simp
next
  case (2 c cs)
  show ?case
  proof (cases "tag_at (c # cs)")
    case (Some rest)
    with 2 show ?thesis by simp
  next
    case None
    with 2 have ih: "lt_closed (strip_tags cs)" by simp
    have "c \<noteq> CHR ''<'' \<or> strip_tags cs = [] \<or> hd (strip_tags cs) = CHR ''>''"
    proof (cases "c = CHR ''<''")
      case True
      with None tag_at_None_lt have "cs = [] \<or> hd cs = CHR ''>''" by blast
      then show ?thesis
        by (cases cs) (auto simp: tag_at_not_lt)
    qed simp
    with ih None show ?thesis
      by (simp add: lt_closed_Cons)
  qed
qed

lemma lt_closed_take: "lt_closed t \<Longrightarrow> lt_closed (take n t)"
proof (induction t arbitrary: n rule: lt_closed.induct)
  case (3 c d cs)
  show ?case
  proof (cases n)
    case (Suc m)
    with "3.IH" [of m] "3.prems" show ?thesis
      by (cases m) auto
  qed simp
qed (auto simp: take_Cons')

lemma lt_closed_no_tag: "lt_closed t \<Longrightarrow> \<not> has_tag (t @ ''...'')"
  by (induction t rule: lt_closed.induct) (auto simp: tag_closed_def)

text \<open>
  C2: the snippet of every article is the stripped description cut to 225 characters with
  the three dots appended in every case, so it ends with the dots and is at most 228
  characters long; and it contains no tag marker: nowhere in it is a \<open><\<close> followed by one
  or more characters other than \<open>>\<close> and then by \<open>>\<close>.
\<close>

theorem snippet_shape:
  "contentSnippet (build_article feed parsed item) = take 225 (strip_tags (resolve_desc item)) @ ''...'' \<and>
   length (contentSnippet (build_article feed parsed item)) \<le> 228 \<and>
   \<not> (\<exists>pre tag post.
        contentSnippet (build_article feed parsed item) = pre @ [CHR ''<''] @ tag @ [CHR ''>''] @ post \<and>
        tag \<noteq> [] \<and> CHR ''>'' \<notin> set tag)"
proof -
  let ?s = "contentSnippet (build_article feed parsed item)"
  have eq: "?s = take 225 (strip_tags (resolve_desc item)) @ ''...''"
    by (simp add: build_article_def Let_def)
  have len: "length ?s \<le> 228"
    unfolding eq by simp
  have "\<not> has_tag ?s"
    unfolding eq by (intro lt_closed_no_tag lt_closed_take strip_tags_lt_closed)
  then have "\<not> (\<exists>pre tag post. ?s = pre @ [CHR ''<''] @ tag @ [CHR ''>''] @ post \<and>
        tag \<noteq> [] \<and> CHR ''>'' \<notin> set tag)"
    using has_tag_intro by blast
  with eq len show ?thesis by blast
qed

theorem snippet_shape_witness:
  "contentSnippet (build_article \<lparr>name = ''Wired'', url = ''https://www.wired.com/feed/rss''\<rparr>
      empty_feed (empty_item\<lparr>item_contentEncoded := Some ''<p>Hi <b>there</b></p>''\<rparr>))
     = ''Hi there...''"
  using snippet_shape [of "\<lparr>name = ''Wired'', url = ''https://www.wired.com/feed/rss''\<rparr>"
      empty_feed "empty_item\<lparr>item_contentEncoded := Some ''<p>Hi <b>there</b></p>''\<rparr>"]
  by (simp add: resolve_desc_def js_or_def js_or_str_def truthy_def tag_at_def tag_tail_def)

section \<open>The loop over the sources\<close>

subsection \<open>What the callback returns, and when\<close>

lemma call_extractImage_Inr:
  "call_extractImage v = Inr r \<Longrightarrow> v \<noteq> JObject \<and> r = extractImage (as_text v)"
  by (cases v) (auto simp: call_extractImage_def as_text_def)

lemma call_extractImage_plain: "v \<noteq> JObject \<Longrightarrow> \<exists>r. call_extractImage v = Inr r"
  by (cases v) (auto simp: call_extractImage_def)

lemma js_or_value_text:
  "js_or_value a b \<noteq> JObject \<Longrightarrow>
     a \<noteq> JObject \<and> as_text (js_or_value a b) = js_or (as_text a) (as_text b)"
  by (cases a) (auto simp: js_or_value_def js_truthy_def js_or_def truthy_def as_text_def)

text \<open>
  Where \<open>desc\<close> is no object it is the string that \<open>resolve_desc\<close> computes from the text
  fields: an object can only stand behind the first truthy string, where \<open>||\<close> does not look.
\<close>

lemma item_desc_text:
  assumes "item_desc item \<noteq> JObject"
  shows "item_desc item = JString (resolve_desc (text_item item))"
proof -
  let ?a = "js_or_value (js_contentEncoded item) (js_contentSnippet item)"
  let ?b = "js_or_value ?a (js_content_encoded item)"
  let ?c = "js_or_value ?b (js_description item)"
  from assms have d: "js_or_value ?c (JString []) \<noteq> JObject"
    by (simp add: item_desc_def)
  from js_or_value_text [OF d] have c: "?c \<noteq> JObject"
    and td: "as_text (js_or_value ?c (JString [])) = js_or (as_text ?c) (Some [])"
    by (simp_all add: as_text_def)
  from js_or_value_text [OF c] have b: "?b \<noteq> JObject"
    and tc: "as_text ?c = js_or (as_text ?b) (as_text (js_description item))"
    by simp_all
  from js_or_value_text [OF b] have a: "?a \<noteq> JObject"
    and tb: "as_text ?b = js_or (as_text ?a) (as_text (js_content_encoded item))"
    by simp_all
  from js_or_value_text [OF a]
  have ta: "as_text ?a = js_or (as_text (js_contentEncoded item)) (as_text (js_contentSnippet item))"
    by simp
  let ?chain = "js_or (js_or (js_or (as_text (js_contentEncoded item))
      (as_text (js_contentSnippet item))) (as_text (js_content_encoded item)))
      (as_text (js_description item))"
  from td tc tb ta have "as_text (item_desc item) = js_or ?chain (Some [])"
    by (simp add: item_desc_def)
  moreover have "js_or ?chain (Some []) = Some (js_or_str ?chain [])"
    by (cases ?chain) (auto simp: js_or_def js_or_str_def truthy_def)
  ultimately have "as_text (item_desc item) = Some (resolve_desc (text_item item))"
    by (simp add: resolve_desc_def text_item_def)
  then show ?thesis
    by (cases "item_desc item") (auto simp: as_text_def)
qed

lemma channel_step_Inr:
  "channel_step parsed = Inr c \<Longrightarrow> c = channelImage (text_feed parsed)"
  by (auto simp: channel_step_def channelImage_def text_feed_def Let_def js_or_def
      split: if_splits dest: call_extractImage_Inr)

lemma map_callback_Inr:
  "map_callback feed parsed item = Inr a \<Longrightarrow>
     a = build_article feed (text_feed parsed) (text_item item)"
  by (auto simp: map_callback_def split: sum.splits if_splits)

text \<open>
  The values the two calls return are those \<open>build_article\<close> computes from the text fields:
  the first call reads \<open>desc\<close>, the second, made when the first found nothing, the summary.
\<close>

lemma callback_reads_text:
  assumes "map_callback feed parsed item = Inr a"
  shows "\<exists>r. call_extractImage (item_desc item) = Inr r \<and>
           r = extractImage (Some (resolve_desc (text_item item))) \<and>
           (truthy r \<or>
            (\<exists>r'. call_extractImage (js_contentSnippet item) = Inr r' \<and>
                  r' = extractImage (item_contentSnippet (text_item item))))"
proof -
  from assms obtain r where r: "call_extractImage (item_desc item) = Inr r"
    and second: "truthy r \<or> (\<exists>r'. call_extractImage (js_contentSnippet item) = Inr r')"
    by (auto simp: map_callback_def split: sum.splits if_splits)
  from call_extractImage_Inr [OF r] have "item_desc item \<noteq> JObject"
    and "r = extractImage (as_text (item_desc item))"
    by simp_all
  with item_desc_text [of item]
  have first: "r = extractImage (Some (resolve_desc (text_item item)))"
    by (simp add: as_text_def)
  have "r' = extractImage (item_contentSnippet (text_item item))"
    if "call_extractImage (js_contentSnippet item) = Inr r'" for r'
    using call_extractImage_Inr [OF that] by (simp add: text_item_def)
  with r first second show ?thesis by blast
qed

lemma map_callback_plain:
  assumes "plain_item item"
  shows "\<exists>a. map_callback feed parsed item = Inr a"
proof -
  from assms have "item_desc item \<noteq> JObject"
    by (auto simp: plain_item_def item_desc_def js_or_value_def)
  then obtain r where r: "call_extractImage (item_desc item) = Inr r"
    using call_extractImage_plain by blast
  from assms obtain r' where "call_extractImage (js_contentSnippet item) = Inr r'"
    using call_extractImage_plain [of "js_contentSnippet item"] by (auto simp: plain_item_def)
  with r show ?thesis
    by (simp add: map_callback_def)
qed

lemma map_throwing_Inr:
  assumes "\<And>x y. f x = Inr y \<Longrightarrow> y = h x"
  shows "map_throwing f xs = Inr ys \<Longrightarrow> ys = map h xs"
proof (induction xs arbitrary: ys)
  case Nil
  then show ?case by simp
next
  case (Cons x xs)
  then show ?case
    by (auto split: sum.splits dest: assms)
qed

lemma map_throwing_all:
  "list_all (\<lambda>x. \<exists>y. f x = Inr y) xs \<Longrightarrow> \<exists>ys. map_throwing f xs = Inr ys"
  by (induction xs) auto

lemma process_source_Inr:
  assumes "process_source parseURL f = Inr arts"
  shows "\<exists>p. parseURL (url f) = Inr p \<and>
           arts = map (build_article f (text_feed p)) (take 10 (feed_items (text_feed p)))"
proof -
  from assms obtain p where p: "parseURL (url f) = Inr p"
    and m: "map_throwing (map_callback f p) (take 10 (js_items p)) = Inr arts"
    by (auto simp: process_source_def split: sum.splits)
  from m have "arts = map (\<lambda>item. build_article f (text_feed p) (text_item item))
      (take 10 (js_items p))"
    by (rule map_throwing_Inr [rotated]) (rule map_callback_Inr)
  then have "arts = map (build_article f (text_feed p)) (take 10 (feed_items (text_feed p)))"
    by (simp add: text_feed_def take_map comp_def)
  with p show ?thesis by blast
qed

lemma process_source_parse_throw:
  "parseURL (url f) = Inl e \<Longrightarrow> process_source parseURL f = Inl e"
  by (simp add: process_source_def)

lemma process_source_plain:
  assumes p: "parseURL (url f) = Inr p" and plain: "plain_feed p"
  shows "\<exists>arts. process_source parseURL f = Inr arts"
proof -
  from plain have "js_feed_description p \<noteq> JObject"
    by (simp add: plain_feed_def)
  from call_extractImage_plain [OF this] have "\<exists>c. channel_step p = Inr c"
    by (auto simp: channel_step_def Let_def)
  then obtain c where c: "channel_step p = Inr c" ..
  from plain have "list_all plain_item (take 10 (js_items p))"
    by (auto simp: plain_feed_def list_all_iff dest: in_set_takeD)
  then have "list_all (\<lambda>item. \<exists>a. map_callback f p item = Inr a) (take 10 (js_items p))"
    by (auto simp: list_all_iff intro: map_callback_plain)
  from map_throwing_all [OF this] p c show ?thesis
    by (simp add: process_source_def)
qed

subsection \<open>The loop\<close>

lemma obj_set_fresh: "k \<notin> fst ` set kvs \<Longrightarrow> obj_set kvs k v = kvs @ [(k, v)]"
  by (induction kvs) auto

lemma aggregate_all_processed:
  assumes "\<forall>f\<in>set feeds. \<exists>arts. process_source parseURL f = Inr arts"
    and "distinct (map fst results @ map name feeds)"
  shows "aggregate parseURL feeds results =
           Inr (results @ map (\<lambda>f. (name f, articles_of parseURL f)) feeds)"
  using assms
proof (induction feeds arbitrary: results)
  case Nil
  then show ?case by simp
next
  case (Cons f fs)
  from Cons.prems(1) obtain arts where p: "process_source parseURL f = Inr arts" by auto
  from Cons.prems(2) have fresh: "name f \<notin> fst ` set results" by auto
  then have upd: "obj_set results (name f) arts = results @ [(name f, arts)]"
    by (rule obj_set_fresh)
  from Cons.prems(2) have "distinct (map fst (results @ [(name f, arts)]) @ map name fs)"
    by auto
  with Cons.IH [of "results @ [(name f, arts)]"] Cons.prems(1)
  have "aggregate parseURL fs (results @ [(name f, arts)]) =
          Inr ((results @ [(name f, arts)]) @ map (\<lambda>f. (name f, articles_of parseURL f)) fs)"
    by simp
  with p upd show ?case
    by (simp add: articles_of_def)
qed

lemma aggregate_first_throw:
  assumes "\<forall>g\<in>set pre. \<exists>arts. process_source parseURL g = Inr arts"
    and "process_source parseURL f = Inl e"
  shows "aggregate parseURL (pre @ f # post) results = Inl e"
  using assms
proof (induction pre arbitrary: results)
  case Nil
  then show ?case by simp
next
  case (Cons g gs)
  then obtain arts where "process_source parseURL g = Inr arts" by auto
  with Cons show ?case by simp
qed

lemma FEEDS_distinct: "distinct (map name FEEDS)"
  by (simp add: FEEDS_def)

text \<open>
  No configured name starts with a digit, so none is an array index, and the keys of the
  results object are listed in the order in which they were inserted.
\<close>

lemma FEEDS_names_no_index: "list_all (\<lambda>f. hd (name f) \<notin> set ''0123456789'') FEEDS"
  by (simp add: FEEDS_def)

lemma GET_all_processed:
  assumes "\<forall>f\<in>set FEEDS. \<exists>arts. process_source parseURL f = Inr arts"
  shows "GET parseURL =
           \<lparr>status = 200, body = FeedsBody (map (\<lambda>f. (name f, articles_of parseURL f)) FEEDS)\<rparr>"
  using aggregate_all_processed [OF assms, of "[]"] FEEDS_distinct
  by (simp add: GET_def)

lemma GET_first_throw:
  assumes "FEEDS = pre @ f # post"
    and "\<forall>g\<in>set pre. \<exists>arts. process_source parseURL g = Inr arts"
    and "process_source parseURL f = Inl e"
  shows "GET parseURL = \<lparr>status = 500, body = ErrorBody (message e)\<rparr>"
  using aggregate_first_throw [OF assms(2,3), of post "[]"] assms(1)
  by (simp add: GET_def)

lemma first_throw:
  assumes "\<not> (\<forall>f\<in>set FEEDS. \<exists>arts. process_source parseURL f = Inr arts)"
  shows "\<exists>pre f post e. FEEDS = pre @ f # post \<and>
           (\<forall>g\<in>set pre. \<exists>arts. process_source parseURL g = Inr arts) \<and>
           process_source parseURL f = Inl e"
proof -
  let ?throws = "\<lambda>f. \<exists>e. process_source parseURL f = Inl e"
  from assms have "\<exists>f\<in>set FEEDS. ?throws f"
    by (metis sum.exhaust)
  then obtain pre f post where split: "FEEDS = pre @ f # post"
    and f: "?throws f" and pre: "\<forall>g\<in>set pre. \<not> ?throws g"
    using split_list_first_prop [of FEEDS ?throws] by blast
  have "\<forall>g\<in>set pre. \<exists>arts. process_source parseURL g = Inr arts"
  proof
    fix g assume "g \<in> set pre"
    with pre have "\<not> ?throws g" by blast
    then show "\<exists>arts. process_source parseURL g = Inr arts"
      by (cases "process_source parseURL g") auto
  qed
  with split f show ?thesis by blast
qed

lemma GET_200:
  assumes "GET parseURL = \<lparr>status = 200, body = FeedsBody results\<rparr>"
  shows "(\<forall>f\<in>set FEEDS. \<exists>arts. process_source parseURL f = Inr arts) \<and>
         results = map (\<lambda>f. (name f, articles_of parseURL f)) FEEDS"
proof -
  have all: "\<forall>f\<in>set FEEDS. \<exists>arts. process_source parseURL f = Inr arts"
  proof (rule ccontr)
    assume "\<not> (\<forall>f\<in>set FEEDS. \<exists>arts. process_source parseURL f = Inr arts)"
    from first_throw [OF this] obtain pre f post e where "FEEDS = pre @ f # post"
      "\<forall>g\<in>set pre. \<exists>arts. process_source parseURL g = Inr arts"
      "process_source parseURL f = Inl e"
      by blast
    then have "GET parseURL = \<lparr>status = 500, body = ErrorBody (message e)\<rparr>"
      by (rule GET_first_throw)
    with assms show False by simp
  qed
  from GET_all_processed [OF all] assms all show ?thesis by simp
qed

lemma GET_plain:
  assumes "\<forall>f\<in>set FEEDS. \<exists>p. parseURL (url f) = Inr p \<and> plain_feed p"
  shows "\<exists>results. GET parseURL = \<lparr>status = 200, body = FeedsBody results\<rparr>"
proof -
  from assms have "\<forall>f\<in>set FEEDS. \<exists>arts. process_source parseURL f = Inr arts"
    using process_source_plain by blast
  from GET_all_processed [OF this] show ?thesis by blast
qed

lemma map_of_feeds:
  assumes "distinct (map name feeds)" and "f \<in> set feeds"
  shows "map_of (map (\<lambda>f. (name f, g f)) feeds) (name f) = Some (g f)"
  using assms by (induction feeds) (auto simp: rev_image_eqI)

text \<open>
  Every fetch and parse can succeed and the handler still answer 500: here the full
  content of one entry is an object, and the first call of \<open>extractImage\<close> throws.
\<close>

lemma GET_type_error:
  "(\<forall>f\<in>set FEEDS. \<exists>p. parse_object (url f) = Inr p) \<and>
   GET parse_object = \<lparr>status = 500, body = ErrorBody ''html.match is not a function''\<rparr>"
  by (simp add: FEEDS_def GET_def parse_object_def process_source_def channel_step_def
      map_callback_def item_desc_def js_or_value_def js_truthy_def call_extractImage_def
      extractImage_def truthy_def)

text \<open>
  C1: in the mapping the handler answers with, each source's name leads to the articles
  built from the first ten entries of the feed that was fetched and parsed for it (all of
  them when there are fewer), in the order of the feed, so to \<open>min 10 n\<close> articles for a feed
  of \<open>n\<close> entries. The handler does answer with a mapping when every source is fetched and
  parsed and the text fields of the feeds are strings or missing.
\<close>

theorem bounded_count:
  "(\<forall>results. GET parseURL = \<lparr>status = 200, body = FeedsBody results\<rparr> \<longrightarrow>
      (\<forall>f\<in>set FEEDS. \<exists>p arts.
          parseURL (url f) = Inr p \<and>
          map_of results (name f) = Some arts \<and>
          arts = map (build_article f (text_feed p)) (take 10 (feed_items (text_feed p))) \<and>
          length arts = min 10 (length (js_items p)))) \<and>
   ((\<forall>f\<in>set FEEDS. \<exists>p. parseURL (url f) = Inr p \<and> plain_feed p) \<longrightarrow>
      (\<exists>results. GET parseURL = \<lparr>status = 200, body = FeedsBody results\<rparr>))"
proof (intro conjI allI impI ballI)
  fix results f
  assume g: "GET parseURL = \<lparr>status = 200, body = FeedsBody results\<rparr>" and f: "f \<in> set FEEDS"
  from GET_200 [OF g] f obtain arts where a: "process_source parseURL f = Inr arts"
    and r: "results = map (\<lambda>f. (name f, articles_of parseURL f)) FEEDS"
    by blast
  from process_source_Inr [OF a] obtain p where p: "parseURL (url f) = Inr p"
    and arts: "arts = map (build_article f (text_feed p)) (take 10 (feed_items (text_feed p)))"
    by blast
  from r a have "map_of results (name f) = Some arts"
    using map_of_feeds [OF FEEDS_distinct f, of "articles_of parseURL"]
    by (simp add: articles_of_def)
  moreover from arts have "length arts = min 10 (length (js_items p))"
    by (simp add: text_feed_def min.commute)
  ultimately show "\<exists>p arts. parseURL (url f) = Inr p \<and> map_of results (name f) = Some arts \<and>
      arts = map (build_article f (text_feed p)) (take 10 (feed_items (text_feed p))) \<and>
      length arts = min 10 (length (js_items p))"
    using p arts by blast
next
  assume "\<forall>f\<in>set FEEDS. \<exists>p. parseURL (url f) = Inr p \<and> plain_feed p"
  then show "\<exists>results. GET parseURL = \<lparr>status = 200, body = FeedsBody results\<rparr>"
    by (rule GET_plain)
qed

theorem bounded_count_witness:
  "\<exists>results. GET parse_ok = \<lparr>status = 200, body = FeedsBody results\<rparr> \<and>
     (\<exists>arts. map_of results ''TechCrunch'' = Some arts \<and> length arts = 10) \<and>
     (\<exists>arts. map_of results ''Wired'' = Some arts \<and> length arts = 3)"
proof -
  have "\<forall>f\<in>set FEEDS. \<exists>p. parse_ok (url f) = Inr p \<and> plain_feed p"
    by (auto simp: parse_ok_def plain_feed_def plain_item_def list_all_iff)
  with bounded_count [of parse_ok] obtain results
    where g: "GET parse_ok = \<lparr>status = 200, body = FeedsBody results\<rparr>"
    by blast
  with bounded_count [of parse_ok]
  have a: "\<And>f. f \<in> set FEEDS \<Longrightarrow> \<exists>p arts. parse_ok (url f) = Inr p \<and>
      map_of results (name f) = Some arts \<and> length arts = min 10 (length (js_items p))"
    by blast
  have "\<exists>arts. map_of results ''TechCrunch'' = Some arts \<and> length arts = 10"
    using a [of "\<lparr>name = ''TechCrunch'', url = ''https://techcrunch.com/feed/''\<rparr>"]
    by (auto simp: FEEDS_def parse_ok_def)
  moreover have "\<exists>arts. map_of results ''Wired'' = Some arts \<and> length arts = 3"
    using a [of "\<lparr>name = ''Wired'', url = ''https://www.wired.com/feed/rss''\<rparr>"]
    by (auto simp: FEEDS_def parse_ok_def)
  ultimately show ?thesis using g by blast
qed



text \<open>
  C3: when one of the sources cannot be fetched or parsed, the handler answers with status
  500 and the body \<open>{ error: message }\<close>, and the body is no mapping, whatever was built
  before. The message is that of the first error thrown: where the loop reaches a source
  whose fetch throws, every source before it having been processed, it is the message of
  that error; and where the text fields of the feeds are strings or missing, only a fetch
  can throw, so it is the message of the first source in configuration order that cannot
  be fetched.
\<close>

theorem fail_fast:
  assumes "\<exists>f\<in>set FEEDS. \<exists>e. parseURL (url f) = Inl e"
  shows "(\<exists>pre f post err. FEEDS = pre @ f # post \<and>
            (\<forall>g\<in>set pre. \<exists>arts. process_source parseURL g = Inr arts) \<and>
            process_source parseURL f = Inl err \<and>
            GET parseURL = \<lparr>status = 500, body = ErrorBody (message err)\<rparr>) \<and>
         (\<forall>results. body (GET parseURL) \<noteq> FeedsBody results) \<and>
         (\<forall>pre f post e. FEEDS = pre @ f # post \<and>
            (\<forall>g\<in>set pre. \<exists>arts. process_source parseURL g = Inr arts) \<and>
            parseURL (url f) = Inl e \<longrightarrow>
            GET parseURL = \<lparr>status = 500, body = ErrorBody (message e)\<rparr>) \<and>
         ((\<forall>f\<in>set FEEDS. \<forall>p. parseURL (url f) = Inr p \<longrightarrow> plain_feed p) \<longrightarrow>
            (\<exists>pre f post e. FEEDS = pre @ f # post \<and>
               (\<forall>g\<in>set pre. \<exists>p. parseURL (url g) = Inr p) \<and>
               parseURL (url f) = Inl e \<and>
               GET parseURL = \<lparr>status = 500, body = ErrorBody (message e)\<rparr>))"
proof -
  from assms obtain f0 e0 where "f0 \<in> set FEEDS" and "parseURL (url f0) = Inl e0"
    by blast
  then have "f0 \<in> set FEEDS" and "process_source parseURL f0 = Inl e0"
    by (simp_all add: process_source_parse_throw)
  then have "\<not> (\<forall>f\<in>set FEEDS. \<exists>arts. process_source parseURL f = Inr arts)"
    by force
  from first_throw [OF this] obtain pre f post err where split: "FEEDS = pre @ f # post"
    and pre: "\<forall>g\<in>set pre. \<exists>arts. process_source parseURL g = Inr arts"
    and f: "process_source parseURL f = Inl err"
    by blast
  from split pre f have g: "GET parseURL = \<lparr>status = 500, body = ErrorBody (message err)\<rparr>"
    by (rule GET_first_throw)
  have reached: "GET parseURL = \<lparr>status = 500, body = ErrorBody (message e)\<rparr>"
    if "FEEDS = pre' @ f' # post'"
      "\<forall>g\<in>set pre'. \<exists>arts. process_source parseURL g = Inr arts"
      "parseURL (url f') = Inl e"
    for pre' f' post' e
    using that(1,2) process_source_parse_throw [of parseURL f' e, OF that(3)]
    by (rule GET_first_throw)
  have plain: "\<exists>pre f post e. FEEDS = pre @ f # post \<and>
      (\<forall>g\<in>set pre. \<exists>p. parseURL (url g) = Inr p) \<and> parseURL (url f) = Inl e \<and>
      GET parseURL = \<lparr>status = 500, body = ErrorBody (message e)\<rparr>"
    if all_plain: "\<forall>f\<in>set FEEDS. \<forall>p. parseURL (url f) = Inr p \<longrightarrow> plain_feed p"
  proof -
    from pre have parsed: "\<forall>g\<in>set pre. \<exists>p. parseURL (url g) = Inr p"
      using process_source_Inr by blast
    have "\<exists>e. parseURL (url f) = Inl e"
    proof (cases "parseURL (url f)")
      case (Inr p)
      have "f \<in> set FEEDS" unfolding split by simp
      with all_plain Inr have "plain_feed p" by blast
      from process_source_plain [of parseURL f p, OF Inr this] f show ?thesis by simp
    qed simp
    then obtain e where e: "parseURL (url f) = Inl e" by blast
    from reached [OF split pre e] split parsed e show ?thesis by blast
  qed
  from split pre f g reached plain show ?thesis
    by (intro conjI) (blast, simp, blast, blast)
qed

theorem fail_fast_witness:
  "(\<exists>f\<in>set FEEDS. \<exists>e. parse_fail (url f) = Inl e) \<and>
   GET parse_fail = \<lparr>status = 500, body = ErrorBody ''Status code 404''\<rparr>"
proof -
  have h: "\<exists>f\<in>set FEEDS. \<exists>e. parse_fail (url f) = Inl e"
    by (simp add: FEEDS_def parse_fail_def)
  have split: "FEEDS =
      [\<lparr>name = ''Google News'', url = ''https://news.google.com/rss?hl=en-US&gl=US&ceid=US:en''\<rparr>,
       \<lparr>name = ''TechCrunch'', url = ''https://techcrunch.com/feed/''\<rparr>] @
      \<lparr>name = ''BBC World'', url = ''http://feeds.bbci.co.uk/news/world/rss.xml''\<rparr> #
      drop 3 FEEDS"
    by (simp add: FEEDS_def)
  have pre: "\<forall>g\<in>set
      [\<lparr>name = ''Google News'', url = ''https://news.google.com/rss?hl=en-US&gl=US&ceid=US:en''\<rparr>,
       \<lparr>name = ''TechCrunch'', url = ''https://techcrunch.com/feed/''\<rparr>].
      \<exists>arts. process_source parse_fail g = Inr arts"
    by (simp add: parse_fail_def process_source_def channel_step_def call_extractImage_def
        extractImage_def truthy_def)
  have e: "parse_fail (url \<lparr>name = ''BBC World'',
      url = ''http://feeds.bbci.co.uk/news/world/rss.xml''\<rparr>) = Inl (JsError ''Status code 404'')"
    by (simp add: parse_fail_def)
  from fail_fast [OF h] split pre e
  have "GET parse_fail = \<lparr>status = 500, body = ErrorBody (message (JsError ''Status code 404''))\<rparr>"
    by blast
  with h show ?thesis by simp
qed

section \<open>extractImage and the occurrences of its pattern\<close>

lemma ci_equal_Nil: "ci_equal [] t \<longleftrightarrow> t = []"
  by (simp add: ci_equal_def)

lemma ci_equal_Cons:
  "ci_equal (p # ps) t \<longleftrightarrow> (\<exists>c t'. t = c # t' \<and> upcase c = upcase p \<and> ci_equal ps t')"
  by (cases t) (auto simp: ci_equal_def)

lemma ci_equal_length: "ci_equal lit t \<Longrightarrow> length t = length lit"
  unfolding ci_equal_def by (rule map_eq_imp_length_eq)

lemma ci_prefix_iff: "ci_prefix lit s = Some r \<longleftrightarrow> (\<exists>t. s = t @ r \<and> ci_equal lit t)"
proof (induction lit s rule: ci_prefix.induct)
  case (1 s)
  show ?case by (simp add: ci_equal_Nil)
next
  case (2 p ps)
  show ?case by (simp add: ci_equal_Cons)
next
  case (3 p ps c cs)
  have "(\<exists>t. c # cs = t @ r \<and> ci_equal (p # ps) t) \<longleftrightarrow>
        upcase c = upcase p \<and> (\<exists>t'. cs = t' @ r \<and> ci_equal ps t')"
    unfolding ci_equal_Cons by (auto simp: Cons_eq_append_conv)
  with 3 show ?case by simp
qed

lemma src_attr_gt: "src_attr (CHR ''>'' # cs) = None"
  by (simp add: src_attr_def upcase_def)

lemma src_attr_unfold:
  "src_attr s = Some u \<longleftrightarrow>
     (\<exists>q r'. ci_prefix ''src='' s = Some (q # r') \<and> is_quote q \<and>
        takeWhile (\<lambda>c. \<not> is_quote c) r' = u \<and> u \<noteq> [] \<and>
        dropWhile (\<lambda>c. \<not> is_quote c) r' \<noteq> [])"
  unfolding src_attr_def Let_def
  by (cases "ci_prefix ''src='' s") (auto split: list.splits)

lemma quoted_run:
  "r' = u @ q2 # post \<and> is_quote q2 \<and> (\<forall>c\<in>set u. \<not> is_quote c) \<longleftrightarrow>
     takeWhile (\<lambda>c. \<not> is_quote c) r' = u \<and> dropWhile (\<lambda>c. \<not> is_quote c) r' = q2 # post"
proof
  assume a: "r' = u @ q2 # post \<and> is_quote q2 \<and> (\<forall>c\<in>set u. \<not> is_quote c)"
  then have "takeWhile (\<lambda>c. \<not> is_quote c) (u @ q2 # post) = u"
    by (simp add: takeWhile_tail)
  moreover from a have "dropWhile (\<lambda>c. \<not> is_quote c) (u @ q2 # post) = q2 # post"
    by (simp add: dropWhile_append3)
  ultimately show "takeWhile (\<lambda>c. \<not> is_quote c) r' = u \<and> dropWhile (\<lambda>c. \<not> is_quote c) r' = q2 # post"
    using a by simp
next
  assume a: "takeWhile (\<lambda>c. \<not> is_quote c) r' = u \<and> dropWhile (\<lambda>c. \<not> is_quote c) r' = q2 # post"
  then have "r' = u @ q2 # post"
    using takeWhile_dropWhile_id [of "\<lambda>c. \<not> is_quote c" r'] by simp
  moreover from a have "is_quote q2"
    using hd_dropWhile [of "\<lambda>c. \<not> is_quote c" r'] by simp
  moreover from a have "\<forall>c\<in>set u. \<not> is_quote c"
    by (auto dest: set_takeWhileD)
  ultimately show "r' = u @ q2 # post \<and> is_quote q2 \<and> (\<forall>c\<in>set u. \<not> is_quote c)"
    by simp
qed

lemma src_attr_sound:
  assumes "src_attr s = Some u"
  shows "\<exists>attr q1 q2 post. s = attr @ [q1] @ u @ [q2] @ post \<and> ci_equal ''src='' attr \<and>
        is_quote q1 \<and> is_quote q2 \<and> u \<noteq> [] \<and> (\<forall>c\<in>set u. \<not> is_quote c)"
proof -
  from assms obtain q1 r' where r: "ci_prefix ''src='' s = Some (q1 # r')" and q1: "is_quote q1"
    and u: "takeWhile (\<lambda>c. \<not> is_quote c) r' = u" "u \<noteq> []"
    and d: "dropWhile (\<lambda>c. \<not> is_quote c) r' \<noteq> []"
    unfolding src_attr_unfold by blast
  from d obtain q2 post where "dropWhile (\<lambda>c. \<not> is_quote c) r' = q2 # post"
    by (cases "dropWhile (\<lambda>c. \<not> is_quote c) r'") auto
  with u(1) have run: "r' = u @ q2 # post" "is_quote q2" "\<forall>c\<in>set u. \<not> is_quote c"
    using quoted_run [of r' u q2 post] by blast+
  from r have "\<exists>t. s = t @ q1 # r' \<and> ci_equal ''src='' t"
    by (simp only: ci_prefix_iff)
  then obtain attr where attr: "s = attr @ q1 # r'" "ci_equal ''src='' attr"
    by (elim exE conjE)
  with run q1 u(2) have "s = attr @ [q1] @ u @ [q2] @ post \<and> ci_equal ''src='' attr \<and>
        is_quote q1 \<and> is_quote q2 \<and> u \<noteq> [] \<and> (\<forall>c\<in>set u. \<not> is_quote c)"
    by simp
  then show ?thesis
    by (intro exI)
qed

lemma src_attr_complete:
  assumes s: "s = attr @ [q1] @ u @ [q2] @ post"
    and attr: "ci_equal ''src='' attr" and q: "is_quote q1" "is_quote q2"
    and u: "u \<noteq> []" "\<forall>c\<in>set u. \<not> is_quote c"
  shows "src_attr s = Some u"
proof -
  from s attr have "s = attr @ (q1 # u @ q2 # post) \<and> ci_equal ''src='' attr"
    by simp
  then have "\<exists>t. s = t @ (q1 # u @ q2 # post) \<and> ci_equal ''src='' t"
    by (rule exI)
  then have "ci_prefix ''src='' s = Some (q1 # u @ q2 # post)"
    by (simp only: ci_prefix_iff)
  moreover from q(2) u(2)
  have "takeWhile (\<lambda>c. \<not> is_quote c) (u @ q2 # post) = u \<and>
        dropWhile (\<lambda>c. \<not> is_quote c) (u @ q2 # post) = q2 # post"
    using quoted_run [of "u @ q2 # post" u q2 post] by blast
  ultimately have "ci_prefix ''src='' s = Some (q1 # u @ q2 # post) \<and> is_quote q1 \<and>
        takeWhile (\<lambda>c. \<not> is_quote c) (u @ q2 # post) = u \<and> u \<noteq> [] \<and>
        dropWhile (\<lambda>c. \<not> is_quote c) (u @ q2 # post) \<noteq> []"
    using q(1) u(1) by (simp only: list.distinct simp_thms)
  then show ?thesis
    unfolding src_attr_unfold by blast
qed

lemma attr_scan_complete:
  "CHR ''>'' \<notin> set gap \<Longrightarrow> src_attr rest = Some u \<Longrightarrow> attr_scan (gap @ rest) \<noteq> None"
proof (induction gap)
  case Nil
  then show ?case by (cases rest) (auto split: option.splits)
next
  case (Cons c gap)
  then show ?case by (auto split: option.splits)
qed

lemma attr_scan_sound:
  "attr_scan s = Some u \<Longrightarrow>
     \<exists>gap rest. s = gap @ rest \<and> CHR ''>'' \<notin> set gap \<and> src_attr rest = Some u \<and>
       (\<forall>gap' rest' u'. s = gap' @ rest' \<and> CHR ''>'' \<notin> set gap' \<and> src_attr rest' = Some u'
            \<longrightarrow> length gap' \<le> length gap)"
proof (induction s)
  case Nil
  then show ?case by auto
next
  case (Cons c cs)
  show ?case
  proof (cases "c \<noteq> CHR ''>'' \<and> attr_scan cs \<noteq> None")
    case True
    with Cons.prems have "attr_scan cs = Some u" by (auto split: option.splits)
    from Cons.IH [OF this] obtain gap rest where g: "cs = gap @ rest" "CHR ''>'' \<notin> set gap"
      "src_attr rest = Some u"
      and mx: "\<And>gap' rest' u'. cs = gap' @ rest' \<Longrightarrow> CHR ''>'' \<notin> set gap' \<Longrightarrow>
                 src_attr rest' = Some u' \<Longrightarrow> length gap' \<le> length gap"
      by blast
    have "length gap' \<le> length (c # gap)"
      if "c # cs = gap' @ rest'" "CHR ''>'' \<notin> set gap'" "src_attr rest' = Some u'"
      for gap' rest' u'
    proof (cases gap')
      case Nil
      then show ?thesis by simp
    next
      case (Cons d gap'')
      with that mx [of gap'' rest' u'] show ?thesis by auto
    qed
    with g True show ?thesis
      by (intro exI [of _ "c # gap"] exI [of _ rest]) auto
  next
    case False
    with Cons.prems have here: "src_attr (c # cs) = Some u"
      by (auto split: if_splits option.splits)
    with src_attr_gt have c: "c \<noteq> CHR ''>''" by auto
    with False have none: "attr_scan cs = None" by simp
    have "length gap' \<le> length ([] :: string)"
      if "c # cs = gap' @ rest'" "CHR ''>'' \<notin> set gap'" "src_attr rest' = Some u'"
      for gap' rest' u'
    proof (cases gap')
      case Nil
      then show ?thesis by simp
    next
      case (Cons d gap'')
      with that attr_scan_complete [of gap'' rest' u'] none show ?thesis by auto
    qed
    with here show ?thesis
      by (intro exI [of _ "[]"] exI [of _ "c # cs"]) auto
  qed
qed

lemma img_occurrence_alt:
  "img_occurrence s pre gap u \<longleftrightarrow>
     (\<exists>tag rest. s = pre @ tag @ gap @ rest \<and> ci_equal ''<img '' tag \<and> CHR ''>'' \<notin> set gap \<and>
        src_attr rest = Some u)"
proof
  assume "img_occurrence s pre gap u"
  then obtain tag attr q1 q2 post where s: "s = pre @ tag @ gap @ attr @ [q1] @ u @ [q2] @ post"
    and tag: "ci_equal ''<img '' tag" "CHR ''>'' \<notin> set gap"
    and rest: "ci_equal ''src='' attr" "is_quote q1" "is_quote q2" "u \<noteq> []"
      "\<forall>c\<in>set u. \<not> is_quote c"
    unfolding img_occurrence_def by blast
  from rest have "src_attr (attr @ [q1] @ u @ [q2] @ post) = Some u"
    by (intro src_attr_complete [OF refl])
  with s tag show "\<exists>tag rest. s = pre @ tag @ gap @ rest \<and> ci_equal ''<img '' tag \<and>
      CHR ''>'' \<notin> set gap \<and> src_attr rest = Some u"
    by blast
next
  assume "\<exists>tag rest. s = pre @ tag @ gap @ rest \<and> ci_equal ''<img '' tag \<and> CHR ''>'' \<notin> set gap \<and>
        src_attr rest = Some u"
  then obtain tag rest where s: "s = pre @ tag @ gap @ rest"
    and tag: "ci_equal ''<img '' tag" "CHR ''>'' \<notin> set gap" and rest: "src_attr rest = Some u"
    by blast
  from src_attr_sound [OF rest] obtain attr q1 q2 post
    where "rest = attr @ [q1] @ u @ [q2] @ post" "ci_equal ''src='' attr" "is_quote q1"
      "is_quote q2" "u \<noteq> []" "\<forall>c\<in>set u. \<not> is_quote c"
    by blast
  with s tag show "img_occurrence s pre gap u"
    unfolding img_occurrence_def by blast
qed

lemma img_occurrence_shift: "img_occurrence (pre @ m) pre gap u \<longleftrightarrow> img_occurrence m [] gap u"
  unfolding img_occurrence_def by simp

lemma img_occurrence_suffix: "img_occurrence s pre gap u \<Longrightarrow> \<exists>m. s = pre @ m"
  unfolding img_occurrence_def by blast

lemma img_at_complete:
  assumes "img_occurrence m [] gap u"
  shows "img_at m \<noteq> None"
proof -
  from assms obtain tag rest where m: "m = tag @ gap @ rest" and tag: "ci_equal ''<img '' tag"
    and gap: "CHR ''>'' \<notin> set gap" and rest: "src_attr rest = Some u"
    unfolding img_occurrence_alt by auto
  from m tag have "\<exists>t. m = t @ (gap @ rest) \<and> ci_equal ''<img '' t" by blast
  then have "ci_prefix ''<img '' m = Some (gap @ rest)"
    by (simp only: ci_prefix_iff)
  with attr_scan_complete [OF gap rest] show ?thesis
    by (simp add: img_at_def)
qed

lemma img_at_sound:
  assumes "img_at m = Some u"
  shows "\<exists>gap. img_occurrence m [] gap u \<and>
           (\<forall>gap' u'. img_occurrence m [] gap' u' \<longrightarrow> length gap' \<le> length gap)"
proof -
  from assms obtain r where r: "ci_prefix ''<img '' m = Some r" and scan: "attr_scan r = Some u"
    by (auto simp: img_at_def split: option.splits)
  from r have "\<exists>t. m = t @ r \<and> ci_equal ''<img '' t"
    by (simp only: ci_prefix_iff)
  then obtain tag where tag: "m = tag @ r" "ci_equal ''<img '' tag"
    by (elim exE conjE)
  from attr_scan_sound [OF scan] obtain gap rest where g: "r = gap @ rest" "CHR ''>'' \<notin> set gap"
    "src_attr rest = Some u"
    and mx: "\<And>gap' rest' u'. r = gap' @ rest' \<Longrightarrow> CHR ''>'' \<notin> set gap' \<Longrightarrow>
               src_attr rest' = Some u' \<Longrightarrow> length gap' \<le> length gap"
    by blast
  from tag g have occ: "img_occurrence m [] gap u"
    unfolding img_occurrence_alt by auto
  have "length gap' \<le> length gap" if "img_occurrence m [] gap' u'" for gap' u'
  proof -
    from that obtain tag' rest' where m': "m = tag' @ gap' @ rest'"
      and tag': "ci_equal ''<img '' tag'" and gap': "CHR ''>'' \<notin> set gap'"
      and rest': "src_attr rest' = Some u'"
      unfolding img_occurrence_alt by auto
    from tag(2) tag' have "length tag' = length tag"
      by (simp add: ci_equal_length)
    with tag(1) m' have "r = gap' @ rest'" by simp
    then show ?thesis using gap' rest' by (rule mx)
  qed
  with occ show ?thesis by blast
qed

lemma first_match_None: "first_match (pre @ m) = None \<Longrightarrow> img_at m = None"
proof (induction pre)
  case Nil
  then show ?case by (cases m) (auto split: option.splits)
next
  case (Cons c pre)
  then show ?case by (auto split: option.splits)
qed

lemma first_match_sound:
  "first_match s = Some u \<Longrightarrow>
     \<exists>pre m. s = pre @ m \<and> img_at m = Some u \<and>
       (\<forall>pre' m'. s = pre' @ m' \<and> length pre' < length pre \<longrightarrow> img_at m' = None)"
proof (induction s)
  case Nil
  then show ?case by auto
next
  case (Cons c cs)
  show ?case
  proof (cases "img_at (c # cs)")
    case (Some v)
    with Cons.prems have "img_at (c # cs) = Some u" by simp
    then show ?thesis
      by (intro exI [of _ "[]"] exI [of _ "c # cs"]) simp
  next
    case None
    with Cons.prems have "first_match cs = Some u" by simp
    from Cons.IH [OF this] obtain pre m where pm: "cs = pre @ m" "img_at m = Some u"
      and early: "\<And>pre' m'. cs = pre' @ m' \<Longrightarrow> length pre' < length pre \<Longrightarrow> img_at m' = None"
      by blast
    have "img_at m' = None" if "c # cs = pre' @ m'" "length pre' < length (c # pre)" for pre' m'
    proof (cases pre')
      case Nil
      with that None show ?thesis by simp
    next
      case (Cons d pre'')
      with that early [of pre'' m'] show ?thesis by simp
    qed
    with pm show ?thesis
      by (intro exI [of _ "c # pre"] exI [of _ m]) auto
  qed
qed

lemma no_occurrence_in_empty: "\<not> img_occurrence [] pre gap u"
  unfolding img_occurrence_def by simp

lemma extractImage_sound:
  assumes "extractImage (Some s) = Some u"
  shows "\<exists>pre gap. img_occurrence s pre gap u \<and>
           (\<forall>pre' gap' u'. img_occurrence s pre' gap' u' \<longrightarrow>
              length pre \<le> length pre' \<and> (length pre' = length pre \<longrightarrow> length gap' \<le> length gap))"
proof -
  from assms have "first_match s = Some u"
    by (simp add: extractImage_def split: if_splits)
  from first_match_sound [OF this] obtain pre m where s: "s = pre @ m" and m: "img_at m = Some u"
    and early: "\<And>pre' m'. s = pre' @ m' \<Longrightarrow> length pre' < length pre \<Longrightarrow> img_at m' = None"
    by blast
  from img_at_sound [OF m] obtain gap where occ: "img_occurrence m [] gap u"
    and mx: "\<And>gap' u'. img_occurrence m [] gap' u' \<Longrightarrow> length gap' \<le> length gap"
    by blast
  from occ s have here: "img_occurrence s pre gap u"
    by (simp add: img_occurrence_shift)
  have "length pre \<le> length pre' \<and> (length pre' = length pre \<longrightarrow> length gap' \<le> length gap)"
    if other: "img_occurrence s pre' gap' u'" for pre' gap' u'
  proof -
    from img_occurrence_suffix [OF other] obtain m' where s': "s = pre' @ m'" by blast
    with other have occ': "img_occurrence m' [] gap' u'"
      by (simp add: img_occurrence_shift)
    then have "img_at m' \<noteq> None" by (rule img_at_complete)
    with early [OF s'] have le: "length pre \<le> length pre'"
      by (cases "length pre' < length pre") auto
    have "length gap' \<le> length gap" if "length pre' = length pre"
    proof -
      from that s s' have "m' = m" by simp
      with occ' show ?thesis by (simp add: mx)
    qed
    with le show ?thesis by simp
  qed
  with here show ?thesis by blast
qed

lemma extractImage_complete:
  assumes "img_occurrence s pre gap u"
  shows "extractImage (Some s) \<noteq> None"
proof -
  from img_occurrence_suffix [OF assms] obtain m where s: "s = pre @ m" by blast
  with assms have "img_occurrence m [] gap u"
    by (simp add: img_occurrence_shift)
  then have "img_at m \<noteq> None" by (rule img_at_complete)
  with s first_match_None [of pre m] have "first_match s \<noteq> None" by auto
  moreover from assms have "s \<noteq> []"
    using no_occurrence_in_empty by auto
  ultimately show ?thesis
    by (simp add: extractImage_def)
qed

text \<open>
  C8: \<open>extractImage\<close> returns nothing for a missing or empty input and for an input in which
  the pattern does not occur; otherwise it returns the URL captured from the first
  occurrence of the pattern, that is the occurrence that starts leftmost (and, where several
  \<open>src\<close> attributes follow that \<open><img\<close>, the one behind the longest gap).
\<close>

theorem extractImage_first_occurrence:
  "extractImage None = None \<and>
   extractImage (Some []) = None \<and>
   (extractImage (Some s) = None \<longleftrightarrow> \<not> (\<exists>pre gap u. img_occurrence s pre gap u)) \<and>
   (\<forall>u. extractImage (Some s) = Some u \<longrightarrow>
      (\<exists>pre gap. img_occurrence s pre gap u \<and>
         (\<forall>pre' gap' u'. img_occurrence s pre' gap' u' \<longrightarrow>
            length pre \<le> length pre' \<and>
            (length pre' = length pre \<longrightarrow> length gap' \<le> length gap))))"
proof -
  have "extractImage (Some s) = None \<longleftrightarrow> \<not> (\<exists>pre gap u. img_occurrence s pre gap u)"
  proof
    assume "extractImage (Some s) = None"
    then show "\<not> (\<exists>pre gap u. img_occurrence s pre gap u)"
      using extractImage_complete by blast
  next
    assume none: "\<not> (\<exists>pre gap u. img_occurrence s pre gap u)"
    show "extractImage (Some s) = None"
    proof (cases "extractImage (Some s)")
      case (Some u)
      from extractImage_sound [OF this] none show ?thesis by blast
    qed simp
  qed
  moreover have "extractImage None = None" "extractImage (Some []) = None"
    by (simp_all add: extractImage_def)
  ultimately show ?thesis
    using extractImage_sound by blast
qed

theorem extractImage_first_occurrence_witness:
  "extractImage (Some (''<p>'' @ img_tag ''a.png'')) = Some ''a.png'' \<and>
   (\<exists>pre gap. img_occurrence (''<p>'' @ img_tag ''a.png'') pre gap ''a.png'')"
proof -
  have e: "extractImage (Some (''<p>'' @ img_tag ''a.png'')) = Some ''a.png''"
    by (simp add: extractImage_def img_at_def src_attr_def upcase_def is_quote_def)
  from extractImage_first_occurrence [of "''<p>'' @ img_tag ''a.png''",
      THEN conjunct2, THEN conjunct2, THEN conjunct2, rule_format, OF e]
  obtain pre gap where "img_occurrence (''<p>'' @ img_tag ''a.png'') pre gap ''a.png''"
    by (elim exE conjE)
  then have "\<exists>pre gap. img_occurrence (''<p>'' @ img_tag ''a.png'') pre gap ''a.png''"
    by (intro exI)
  with e show ?thesis by (rule conjI)
qed

end
